theory Spec2Isabelle
  imports Complex_Main
begin

section \<open>Overview\<close>

text \<open>
  The development embeds two parts of \<^verbatim>\<open>src/main.js\<close> and proves the claims C1 to C10
  about them.
  \<^item> \<open>debounce\<close> (lines 16-26): \<open>clearTimeout\<close>, \<open>setTimeout\<close>, \<open>later\<close> and
    \<open>executedFunction\<close> over an explicit timer table; claims C1, C6 and C7.
  \<^item> \<open>isInViewport\<close> (lines 34-45) and the class \<open>ScrollAnimations\<close> (lines 111-177):
    \<open>addElement\<close>, \<open>animateElement\<close>, \<open>checkElementsInView\<close> and the observer callback over
    an explicit tracker state; claims C2 to C5 and C8 to C10.
  All definitions come first; the properties follow, each claim's theorem directly after
  the text that states it, with its counterexample before it where the claim as stated
  fails and its instance at a concrete input after it.
\<close>

section \<open>The debounce utility (src/main.js, lines 16-26)\<close>

text \<open>
  \<^verbatim>\<open>
  function debounce(func, wait) {
      let timeout;
      return function executedFunction(...args) {
          const later = () => { clearTimeout(timeout); func(...args); };
          clearTimeout(timeout);
          timeout = setTimeout(later, wait);
      };
  }
  \<close>
  The wrapper owns one variable, \<open>timeout\<close>, and talks to the host's timer table through
  \<open>setTimeout\<close> and \<open>clearTimeout\<close>. The model is the world of one wrapper: a logical
  clock in milliseconds, the variable, the host's table of pending timers (each holding the
  arguments its \<open>later\<close> closure captured), the host's next fresh handle, and the trace of
  the executions of \<open>func\<close> (time and arguments). Timers are ideal: a timer fires at its due
  time, and a timer due at the instant of a call has fired before the call.
\<close>

record 'a timer =
  handle :: nat
  due :: nat
  later_args :: 'a

record 'a world =
  now :: nat
  timeout :: "nat option"
  timers :: "'a timer list"
  next_handle :: nat
  func_log :: "(nat \<times> 'a) list"

text \<open>A fresh wrapper at time \<open>t0\<close>: \<open>timeout\<close> is undefined, nothing is scheduled.\<close>

definition debounce :: "nat \<Rightarrow> 'a world" where
  "debounce t0 = \<lparr>now = t0, timeout = None, timers = [], next_handle = 1, func_log = []\<rparr>"

text \<open>\<open>clearTimeout(h)\<close>: an undefined or stale handle is ignored.\<close>

definition clearTimeout :: "nat option \<Rightarrow> 'a world \<Rightarrow> 'a world" where
  "clearTimeout h w =
     (case h of
        None \<Rightarrow> w
      | Some k \<Rightarrow> w\<lparr>timers := filter (\<lambda>tm. handle tm \<noteq> k) (timers w)\<rparr>)"

text \<open>\<open>setTimeout(later, wait)\<close>: a fresh handle, due \<open>wait\<close> from now.\<close>

definition setTimeout :: "'a \<Rightarrow> nat \<Rightarrow> 'a world \<Rightarrow> nat \<times> 'a world" where
  "setTimeout args wait w =
     (next_handle w,
      w\<lparr>timers := timers w @ [\<lparr>handle = next_handle w, due = now w + wait, later_args = args\<rparr>],
        next_handle := Suc (next_handle w)\<rparr>)"

text \<open>\<open>func(...args)\<close>, recorded with the time of the call.\<close>

definition func :: "'a \<Rightarrow> 'a world \<Rightarrow> 'a world" where
  "func args w = w\<lparr>func_log := func_log w @ [(now w, args)]\<rparr>"

definition later :: "'a \<Rightarrow> 'a world \<Rightarrow> 'a world" where
  "later args w = func args (clearTimeout (timeout w) w)"

definition executedFunction :: "nat \<Rightarrow> 'a \<Rightarrow> 'a world \<Rightarrow> 'a world" where
  "executedFunction wait args w =
     (let w1 = clearTimeout (timeout w) w;
          (h, w2) = setTimeout args wait w1
      in w2\<lparr>timeout := Some h\<rparr>)"

subsection \<open>The host's timer loop\<close>

text \<open>The pending timer that is due first; the one scheduled first among equals.\<close>

fun earliest :: "'a timer list \<Rightarrow> 'a timer option" where
  "earliest [] = None"
| "earliest (x # xs) =
     (case earliest xs of
        None \<Rightarrow> Some x
      | Some y \<Rightarrow> if due x \<le> due y then Some x else Some y)"

definition next_due :: "nat \<Rightarrow> 'a timer list \<Rightarrow> 'a timer option" where
  "next_due t ts =
     (case earliest ts of
        None \<Rightarrow> None
      | Some tm \<Rightarrow> if due tm \<le> t then Some tm else None)"

text \<open>Firing a timer: the host drops it from the table and runs its closure at its due time.\<close>

definition fire :: "'a timer \<Rightarrow> 'a world \<Rightarrow> 'a world" where
  "fire tm w =
     later (later_args tm)
       (w\<lparr>timers := filter (\<lambda>x. handle x \<noteq> handle tm) (timers w), now := due tm\<rparr>)"

text \<open>All timers due by time \<open>t\<close> fire, in the order of their due times.\<close>

function run_timers :: "nat \<Rightarrow> 'a world \<Rightarrow> 'a world" where
  "run_timers t w =
     (case next_due t (timers w) of
        None \<Rightarrow> w
      | Some tm \<Rightarrow> run_timers t (fire tm w))"
  by pat_completeness auto
termination
proof (relation "measure (\<lambda>(t, w). length (timers w))")
  show "wf (measure (\<lambda>(t, w :: 'a world). length (timers w)))"
    by simp
next
  fix t :: nat and w :: "'a world" and tm
  assume nd: "next_due t (timers w) = Some tm"
  have mem: "earliest ts = Some x \<Longrightarrow> x \<in> set ts" for ts and x :: "'a timer"
    by (induction ts arbitrary: x) (auto split: option.splits if_splits)
  have "earliest (timers w) = Some tm"
    using nd by (auto simp: next_due_def split: option.splits if_splits)
  then have "tm \<in> set (timers w)"
    by (rule mem)
  moreover have "x \<in> set ts \<Longrightarrow> length (filter (\<lambda>y. handle y \<noteq> handle x) ts) < length ts"
    for ts and x :: "'a timer"
    by (induction ts) (auto simp: less_Suc_eq_le)
  ultimately have
    "length (filter (\<lambda>x. handle x \<noteq> handle tm) (timers w)) < length (timers w)"
    by simp
  moreover have "length (timers (fire tm w))
      \<le> length (filter (\<lambda>x. handle x \<noteq> handle tm) (timers w))"
    by (simp add: fire_def later_def func_def clearTimeout_def del: filter_filter
             split: option.splits)
  ultimately show "((t, fire tm w), (t, w)) \<in> measure (\<lambda>(t, w). length (timers w))"
    by simp
qed

declare run_timers.simps [simp del]

text \<open>\<open>d\<close> milliseconds pass.\<close>

definition elapse :: "nat \<Rightarrow> 'a world \<Rightarrow> 'a world" where
  "elapse d w = (run_timers (now w + d) w)\<lparr>now := now w + d\<rparr>"

text \<open>What happens to a wrapper: it is called, or time passes.\<close>

datatype 'a event = Call 'a | Elapse nat

fun step :: "nat \<Rightarrow> 'a event \<Rightarrow> 'a world \<Rightarrow> 'a world" where
  "step wait (Call args) w = executedFunction wait args w"
| "step wait (Elapse d) w = elapse d w"

fun run :: "nat \<Rightarrow> 'a event list \<Rightarrow> 'a world \<Rightarrow> 'a world" where
  "run wait [] w = w"
| "run wait (ev # evs) w = run wait evs (step wait ev w)"

text \<open>
  A schedule of calls: each entry is the time since the previous call (for the first entry,
  since the wrapper was made) and the arguments of the call.
\<close>

fun schedule :: "(nat \<times> 'a) list \<Rightarrow> 'a event list" where
  "schedule [] = []"
| "schedule ((d, args) # cs) = Elapse d # Call args # schedule cs"

text \<open>The times of the calls of a schedule that starts at \<open>t\<close>.\<close>

fun call_times :: "nat \<Rightarrow> (nat \<times> 'a) list \<Rightarrow> (nat \<times> 'a) list" where
  "call_times t [] = []"
| "call_times t ((d, args) # cs) = (t + d, args) # call_times (t + d) cs"

subsection \<open>Shapes of the timer table\<close>

text \<open>
  Nothing is pending, or one timer is and the variable \<open>timeout\<close> holds its handle.
\<close>

definition pending_ok :: "'a world \<Rightarrow> bool" where
  "pending_ok w \<longleftrightarrow>
     timers w = [] \<or> (\<exists>tm. timers w = [tm] \<and> timeout w = Some (handle tm))"

text \<open>One timer is pending, set by a call made now with the arguments \<open>args\<close>.\<close>

definition armed :: "nat \<Rightarrow> 'a \<Rightarrow> 'a world \<Rightarrow> bool" where
  "armed wait args w \<longleftrightarrow>
     (\<exists>h. timers w = [\<lparr>handle = h, due = now w + wait, later_args = args\<rparr>] \<and> timeout w = Some h)"

section \<open>The viewport test (src/main.js, lines 34-45)\<close>

text \<open>
  The geometry query of the host: the bounding rectangle of an element and the size of the
  window, as they are when a handler runs. Lengths are taken as rationals; the rounding of
  JavaScript's numbers is not modelled.
\<close>

record rect =
  rect_top :: rat
  rect_bottom :: rat
  rect_left :: rat
  rect_right :: rat

record 'e layout =
  getBoundingClientRect :: "'e \<Rightarrow> rect"
  innerHeight :: rat
  innerWidth :: rat
  clientHeight :: rat
  clientWidth :: rat

text \<open>\<open>window.innerHeight || document.documentElement.clientHeight\<close>: 0 is falsy.\<close>

definition windowHeight :: "'e layout \<Rightarrow> rat" where
  "windowHeight g = (if innerHeight g = 0 then clientHeight g else innerHeight g)"

definition windowWidth :: "'e layout \<Rightarrow> rat" where
  "windowWidth g = (if innerWidth g = 0 then clientWidth g else innerWidth g)"

definition isInViewport :: "'e layout \<Rightarrow> 'e \<Rightarrow> rat \<Rightarrow> bool" where
  "isInViewport g el threshold =
     (let rect = getBoundingClientRect g el
      in rect_top rect \<le> windowHeight g * (1 - threshold) \<and>
         rect_bottom rect \<ge> windowHeight g * threshold \<and>
         rect_left rect \<le> windowWidth g \<and>
         rect_right rect \<ge> 0)"

section \<open>The scroll animation tracker (src/main.js, lines 111-177)\<close>

text \<open>
  An entry of \<open>this.elements\<close>. \<open>addElement\<close> is the only place that pushes one, behind its
  guard \<open>if (!element) return\<close>, so an entry holds an element, never null.
\<close>

record 'e item =
  element :: 'e
  animationType :: string
  animated :: bool

text \<open>
  The tracker and what it does to the page: the array \<open>this.elements\<close>; \<open>this.observer\<close>,
  which is null (\<open>None\<close>) until \<open>setupIntersectionObserver\<close> has run and then holds the
  targets the observer watches; the trace of \<open>classList.add('animate')\<close>; and the trace of
  the elements \<open>isInViewport\<close> was asked about.
\<close>

record 'e tracker =
  elements :: "'e item list"
  observer :: "'e set option"
  animate_added :: "'e list"
  viewport_tests :: "'e list"

text \<open>Reading a property of null raises a TypeError.\<close>

datatype error = TypeError

text \<open>An \<open>IntersectionObserverEntry\<close>, as far as the callback reads it.\<close>

record 'e entry =
  target :: 'e
  isIntersecting :: bool

definition setupIntersectionObserver :: "'e tracker \<Rightarrow> 'e tracker" where
  "setupIntersectionObserver s = s\<lparr>observer := Some {}\<rparr>"

text \<open>
  \<open>init\<close>: \<open>bindScrollEvents\<close> only registers the debounced scroll listener; the tracker
  itself is untouched by it.
\<close>

definition init :: "'e tracker \<Rightarrow> 'e tracker" where
  "init s = setupIntersectionObserver s"

text \<open>The constructor.\<close>

definition ScrollAnimations :: "'e tracker" where
  "ScrollAnimations =
     init \<lparr>elements = [], observer = None, animate_added = [], viewport_tests = []\<rparr>"

text \<open>
  \<open>addElement(element, animationType)\<close>. The argument is an element or null (\<open>None\<close>).
\<close>

definition addElement :: "'e option \<Rightarrow> string \<Rightarrow> 'e tracker \<Rightarrow> error + 'e tracker" where
  "addElement el ty s =
     (case el of
        None \<Rightarrow> Inr s
      | Some e \<Rightarrow>
          (let s1 = s\<lparr>elements := elements s @ [\<lparr>element = e, animationType = ty, animated = False\<rparr>]\<rparr>
           in case observer s1 of
                None \<Rightarrow> Inl TypeError
              | Some targets \<Rightarrow> Inr (s1\<lparr>observer := Some (insert e targets)\<rparr>)))"

text \<open>
  \<open>Array.prototype.find\<close> gives the first entry that matches, as a reference into the
  array; the model gives its index.
\<close>

fun findIndex :: "('a \<Rightarrow> bool) \<Rightarrow> 'a list \<Rightarrow> nat option" where
  "findIndex P [] = None"
| "findIndex P (x # xs) = (if P x then Some 0 else map_option Suc (findIndex P xs))"

text \<open>
  \<open>animateElement(element)\<close>. No entry holds null, so \<open>find\<close> gives \<open>undefined\<close> for a null
  argument.
\<close>

definition animateElement :: "'e option \<Rightarrow> 'e tracker \<Rightarrow> error + 'e tracker" where
  "animateElement el s =
     (case el of
        None \<Rightarrow> Inr s
      | Some e \<Rightarrow>
          (case findIndex (\<lambda>item. element item = e) (elements s) of
             None \<Rightarrow> Inr s
           | Some i \<Rightarrow>
               (let elementData = elements s ! i
                in if animated elementData then Inr s
                   else
                     (let s1 = s\<lparr>elements := (elements s)[i := elementData\<lparr>animated := True\<rparr>]\<rparr>;
                          s2 = s1\<lparr>animate_added := animate_added s1 @ [e]\<rparr>
                      in case observer s2 of
                           None \<Rightarrow> Inl TypeError
                         | Some targets \<Rightarrow> Inr (s2\<lparr>observer := Some (targets - {e})\<rparr>)))))"

text \<open>\<open>forEach\<close> with a callback that may raise: the first error ends the loop.\<close>

fun forEach :: "('x \<Rightarrow> 's \<Rightarrow> error + 's) \<Rightarrow> 'x list \<Rightarrow> 's \<Rightarrow> error + 's" where
  "forEach f [] s = Inr s"
| "forEach f (x # xs) s =
     (case f x s of
        Inl err \<Rightarrow> Inl err
      | Inr s' \<Rightarrow> forEach f xs s')"

text \<open>
  The callback of the \<open>forEach\<close> in \<open>checkElementsInView\<close>, at index \<open>i\<close>: it reads the
  entry as it is when the loop gets there. \<open>isInViewport\<close> is called with its default
  threshold 0.1, and only when the entry is not animated.
\<close>

definition check_item :: "'e layout \<Rightarrow> nat \<Rightarrow> 'e tracker \<Rightarrow> error + 'e tracker" where
  "check_item g i s =
     (if i < length (elements s) then
        (let item = elements s ! i
         in if animated item then Inr s
            else
              (let s1 = s\<lparr>viewport_tests := viewport_tests s @ [element item]\<rparr>
               in if isInViewport g (element item) (1 / 10)
                  then animateElement (Some (element item)) s1
                  else Inr s1))
      else Inr s)"

definition checkElementsInView :: "'e layout \<Rightarrow> 'e tracker \<Rightarrow> error + 'e tracker" where
  "checkElementsInView g s = forEach (check_item g) [0..<length (elements s)] s"

text \<open>The callback given to the \<open>IntersectionObserver\<close>.\<close>

definition observer_entry :: "'e entry \<Rightarrow> 'e tracker \<Rightarrow> error + 'e tracker" where
  "observer_entry en s =
     (if isIntersecting en then animateElement (Some (target en)) s else Inr s)"

definition observer_callback :: "'e entry list \<Rightarrow> 'e tracker \<Rightarrow> error + 'e tracker" where
  "observer_callback entries s = forEach observer_entry entries s"

text \<open>
  What can happen to a tracker: the bootstrap adds an element, the observer reports
  entries, the debounced scroll handler polls (under the layout of that moment), or the
  reveal procedure is called directly.
\<close>

datatype 'e op =
    AddElement "'e option" string
  | Intersections "'e entry list"
  | ScrollPoll "'e layout"
  | AnimateElement "'e option"

fun exec :: "'e op \<Rightarrow> 'e tracker \<Rightarrow> error + 'e tracker" where
  "exec (AddElement el ty) s = addElement el ty s"
| "exec (Intersections entries) s = observer_callback entries s"
| "exec (ScrollPoll g) s = checkElementsInView g s"
| "exec (AnimateElement el) s = animateElement el s"

definition run_ops :: "'e op list \<Rightarrow> 'e tracker \<Rightarrow> error + 'e tracker" where
  "run_ops ops s = forEach exec ops s"

subsection \<open>Notions the properties are stated with\<close>

text \<open>
  The reveal procedure takes an element as revealed when the entry \<open>find\<close> gives for it is
  animated.
\<close>

definition revealed :: "'e tracker \<Rightarrow> 'e \<Rightarrow> bool" where
  "revealed s e =
     (case findIndex (\<lambda>item. element item = e) (elements s) of
        None \<Rightarrow> False
      | Some i \<Rightarrow> animated (elements s ! i))"

text \<open>The elements the \<open>forEach\<close> of \<open>checkElementsInView\<close> goes through.\<close>

definition rescanned :: "'e tracker \<Rightarrow> 'e list" where
  "rescanned s = map element (elements s)"

text \<open>The entries that are not animated.\<close>

definition unrevealed :: "'e tracker \<Rightarrow> 'e item list" where
  "unrevealed s = filter (\<lambda>item. \<not> animated item) (elements s)"

text \<open>The elements \<open>isInViewport\<close> was asked about between two states.\<close>

definition tests_since :: "'e tracker \<Rightarrow> 'e tracker \<Rightarrow> 'e list" where
  "tests_since s s' = drop (length (viewport_tests s)) (viewport_tests s')"

text \<open>
  The visibility the observer is configured for (\<open>threshold: 0.1\<close>), in the words of the
  specification: at least 10% of the element's bounding box lies inside the viewport
  rectangle. A box without area counts as wholly visible when it touches the viewport.
\<close>

definition visible_area :: "'e layout \<Rightarrow> 'e \<Rightarrow> rat" where
  "visible_area g e =
     (let rect = getBoundingClientRect g e
      in max 0 (min (rect_bottom rect) (windowHeight g) - max (rect_top rect) 0) *
         max 0 (min (rect_right rect) (windowWidth g) - max (rect_left rect) 0))"

definition box_area :: "'e layout \<Rightarrow> 'e \<Rightarrow> rat" where
  "box_area g e =
     (let rect = getBoundingClientRect g e
      in (rect_bottom rect - rect_top rect) * (rect_right rect - rect_left rect))"

definition touches_viewport :: "'e layout \<Rightarrow> 'e \<Rightarrow> bool" where
  "touches_viewport g e =
     (let rect = getBoundingClientRect g e
      in rect_top rect \<le> windowHeight g \<and> rect_bottom rect \<ge> 0 \<and>
         rect_left rect \<le> windowWidth g \<and> rect_right rect \<ge> 0)"

definition intersectionRatio :: "'e layout \<Rightarrow> 'e \<Rightarrow> rat" where
  "intersectionRatio g e =
     (if box_area g e = 0 then (if touches_viewport g e then 1 else 0)
      else visible_area g e / box_area g e)"

definition spec_tenth_visible :: "'e layout \<Rightarrow> 'e \<Rightarrow> bool" where
  "spec_tenth_visible g e \<longleftrightarrow> 1 / 10 \<le> intersectionRatio g e"

text \<open>The whole box lies below 1.1 times the height of the viewport.\<close>

definition below_viewport :: "'e layout \<Rightarrow> 'e \<Rightarrow> bool" where
  "below_viewport g e \<longleftrightarrow>
     0 \<le> windowHeight g \<and>
     windowHeight g * (11 / 10) < rect_top (getBoundingClientRect g e)"

subsection \<open>What holds of every tracker the operations can produce\<close>

text \<open>Only the first entry of an element is ever animated.\<close>

definition first_only :: "'e tracker \<Rightarrow> bool" where
  "first_only s \<longleftrightarrow>
     (\<forall>j<length (elements s). animated (elements s ! j) \<longrightarrow>
        findIndex (\<lambda>item. element item = element (elements s ! j)) (elements s) = Some j)"

text \<open>The marker has been added once to a revealed element and never to any other.\<close>

definition marks_ok :: "'e tracker \<Rightarrow> bool" where
  "marks_ok s \<longleftrightarrow> (\<forall>e. count_list (animate_added s) e = (if revealed s e then 1 else 0))"

text \<open>The observer is set up, and the two properties above hold.\<close>

definition tracker_ok :: "'e tracker \<Rightarrow> bool" where
  "tracker_ok s \<longleftrightarrow> observer s \<noteq> None \<and> first_only s \<and> marks_ok s"

text \<open>Two states hold the same entries, but for the flags.\<close>

definition same_entries :: "'e tracker \<Rightarrow> 'e tracker \<Rightarrow> bool" where
  "same_entries s s' \<longleftrightarrow>
     map element (elements s') = map element (elements s) \<and>
     map animationType (elements s') = map animationType (elements s)"

subsection \<open>Pages used as examples\<close>

text \<open>
  A viewport of 1000 by 1000 with a small box that lies wholly inside it, in its lowest
  tenth: all of the box is visible.
\<close>

definition low_box :: "nat layout" where
  "low_box =
     \<lparr>getBoundingClientRect =
        (\<lambda>e. \<lparr>rect_top = 910, rect_bottom = 940, rect_left = 0, rect_right = 100\<rparr>),
      innerHeight = 1000, innerWidth = 1000, clientHeight = 1000, clientWidth = 1000\<rparr>"

text \<open>
  The same viewport with a box 10000 high that starts at 850: 150 of its 10000 are inside
  the viewport, a share of 3/200.
\<close>

definition tall_box :: "nat layout" where
  "tall_box =
     \<lparr>getBoundingClientRect =
        (\<lambda>e. \<lparr>rect_top = 850, rect_bottom = 10850, rect_left = 0, rect_right = 100\<rparr>),
      innerHeight = 1000, innerWidth = 1000, clientHeight = 1000, clientWidth = 1000\<rparr>"

text \<open>The same viewport with a box that starts at 1200, below 1.1 times its height.\<close>

definition far_below :: "nat layout" where
  "far_below =
     \<lparr>getBoundingClientRect =
        (\<lambda>e. \<lparr>rect_top = 1200, rect_bottom = 1300, rect_left = 0, rect_right = 100\<rparr>),
      innerHeight = 1000, innerWidth = 1000, clientHeight = 1000, clientWidth = 1000\<rparr>"

text \<open>The tracker after element 1 was added; after it was then revealed.\<close>

definition one_added :: "nat tracker" where
  "one_added =
     \<lparr>elements = [\<lparr>element = 1, animationType = ''fadeInScale'', animated = False\<rparr>],
      observer = Some {1}, animate_added = [], viewport_tests = []\<rparr>"

definition one_revealed :: "nat tracker" where
  "one_revealed =
     \<lparr>elements = [\<lparr>element = 1, animationType = ''fadeInScale'', animated = True\<rparr>],
      observer = Some {}, animate_added = [1], viewport_tests = []\<rparr>"


section \<open>Properties of the debounce utility\<close>

lemma armed_pending_ok: "armed wait args w \<Longrightarrow> pending_ok w"
  by (auto simp: armed_def pending_ok_def)

lemma executedFunction_pending:
  assumes "pending_ok w"
  shows "executedFunction wait args w =
           w\<lparr>timers := [\<lparr>handle = next_handle w, due = now w + wait, later_args = args\<rparr>],
             next_handle := Suc (next_handle w), timeout := Some (next_handle w)\<rparr>"
  using assms
  by (auto simp: pending_ok_def executedFunction_def clearTimeout_def setTimeout_def
           split: option.splits)

lemma run_timers_idle: "timers w = [] \<Longrightarrow> run_timers t w = w"
  by (simp add: run_timers.simps next_due_def)

lemma run_timers_not_due: "timers w = [tm] \<Longrightarrow> t < due tm \<Longrightarrow> run_timers t w = w"
  by (simp add: run_timers.simps next_due_def)

lemma timers_fire_single: "timers w = [tm] \<Longrightarrow> timers (fire tm w) = []"
  by (simp add: fire_def later_def func_def clearTimeout_def split: option.splits)

lemma fire_single:
  "timers w = [tm] \<Longrightarrow>
   fire tm w = w\<lparr>timers := [], now := due tm, func_log := func_log w @ [(due tm, later_args tm)]\<rparr>"
  by (simp add: fire_def later_def func_def clearTimeout_def split: option.splits)

lemma run_timers_due:
  assumes "timers w = [tm]" "due tm \<le> t"
  shows "run_timers t w =
           w\<lparr>timers := [], now := due tm, func_log := func_log w @ [(due tm, later_args tm)]\<rparr>"
proof -
  have "run_timers t w = run_timers t (fire tm w)"
    using assms by (subst run_timers.simps) (simp add: next_due_def)
  also have "\<dots> = fire tm w"
    using assms by (simp add: run_timers_idle timers_fire_single)
  finally show ?thesis using assms by (simp add: fire_single)
qed

lemma elapse_idle: "timers w = [] \<Longrightarrow> elapse d w = w\<lparr>now := now w + d\<rparr>"
  by (simp add: elapse_def run_timers_idle)

lemma elapse_armed_early:
  "armed wait args w \<Longrightarrow> d < wait \<Longrightarrow> elapse d w = w\<lparr>now := now w + d\<rparr>"
  by (auto simp: armed_def elapse_def run_timers_not_due)

lemma elapse_armed_late:
  "armed wait args w \<Longrightarrow> wait \<le> d \<Longrightarrow>
   elapse d w = w\<lparr>timers := [], now := now w + d,
                   func_log := func_log w @ [(now w + wait, args)]\<rparr>"
  by (auto simp: armed_def elapse_def run_timers_due)

lemma pending_ok_elapse: "pending_ok w \<Longrightarrow> pending_ok (elapse d w)"
proof -
  assume ok: "pending_ok w"
  show ?thesis
  proof (cases "timers w")
    case Nil
    then show ?thesis by (simp add: elapse_idle pending_ok_def)
  next
    case (Cons tm ts)
    with ok have single: "timers w = [tm]" and h: "timeout w = Some (handle tm)"
      by (auto simp: pending_ok_def)
    show ?thesis
    proof (cases "due tm \<le> now w + d")
      case True
      then show ?thesis using single by (simp add: elapse_def run_timers_due pending_ok_def)
    next
      case False
      then show ?thesis using single h
        by (simp add: elapse_def run_timers_not_due pending_ok_def)
    qed
  qed
qed

lemma pending_ok_call: "pending_ok w \<Longrightarrow> pending_ok (executedFunction wait args w)"
  by (simp add: executedFunction_pending pending_ok_def)

lemma pending_ok_step: "pending_ok w \<Longrightarrow> pending_ok (step wait ev w)"
  by (cases ev) (simp_all add: pending_ok_call pending_ok_elapse)

lemma pending_ok_run: "pending_ok w \<Longrightarrow> pending_ok (run wait evs w)"
  by (induction evs arbitrary: w) (simp_all add: pending_ok_step)

lemma elapse_fresh: "elapse d (debounce t0) = debounce (t0 + d)"
  by (simp add: elapse_idle debounce_def)

lemma pending_ok_debounce: "pending_ok (debounce t0)"
  by (simp add: pending_ok_def debounce_def)

lemma armed_call:
  "pending_ok w \<Longrightarrow> armed wait args (executedFunction wait args w)"
  by (simp add: executedFunction_pending armed_def)

lemma call_keeps:
  "pending_ok w \<Longrightarrow> now (executedFunction wait args w) = now w \<and>
     func_log (executedFunction wait args w) = func_log w"
  by (simp add: executedFunction_pending)

text \<open>A call that arrives before the pending timer is due replaces it.\<close>

lemma rearm:
  assumes "armed wait a w" "d < wait"
  shows "armed wait a' (executedFunction wait a' (elapse d w))"
    and "now (executedFunction wait a' (elapse d w)) = now w + d"
    and "func_log (executedFunction wait a' (elapse d w)) = func_log w"
proof -
  have e: "elapse d w = w\<lparr>now := now w + d\<rparr>"
    using assms by (rule elapse_armed_early)
  have ok: "pending_ok (elapse d w)"
    using assms(1) by (simp add: armed_pending_ok pending_ok_elapse)
  show "armed wait a' (executedFunction wait a' (elapse d w))"
    using ok by (rule armed_call)
  show "now (executedFunction wait a' (elapse d w)) = now w + d"
    using ok by (simp add: call_keeps e)
  show "func_log (executedFunction wait a' (elapse d w)) = func_log w"
    using ok by (simp add: call_keeps e)
qed

lemma collapse_armed:
  assumes "armed wait a w" "\<forall>(d, x) \<in> set cs. d < wait"
  shows "armed wait (snd (last ((now w, a) # call_times (now w) cs))) (run wait (schedule cs) w)
       \<and> now (run wait (schedule cs) w) = fst (last ((now w, a) # call_times (now w) cs))
       \<and> func_log (run wait (schedule cs) w) = func_log w"
  using assms
proof (induction cs arbitrary: w a)
  case Nil
  then show ?case by simp
next
  case (Cons c cs)
  obtain d a' where c: "c = (d, a')" by (cases c)
  let ?w' = "executedFunction wait a' (elapse d w)"
  from Cons.prems c have d: "d < wait" by simp
  have 1: "armed wait a' ?w'" and 2: "now ?w' = now w + d" and 3: "func_log ?w' = func_log w"
    using rearm [OF Cons.prems(1) d] by simp_all
  have rest: "\<forall>(d, x) \<in> set cs. d < wait" using Cons.prems(2) by simp
  have l: "last ((now w, a) # call_times (now w) (c # cs)) =
           last ((now w + d, a') # call_times (now w + d) cs)"
    by (simp add: c)
  from Cons.IH [OF 1 rest] show ?case
    unfolding l by (simp add: c 2 3 del: last.simps)
qed

text \<open>
  Claim C1 (debounce collapsing). A fresh wrapper is called one or more times, each call
  after the first less than \<open>wait\<close> after the one before it. Then, however long one
  waits after the last call, \<open>func\<close> has run not at all before \<open>wait\<close> has passed and
  exactly once from then on: with the arguments of the last call, at the time of the last
  call plus \<open>wait\<close>.
\<close>

theorem debounce_collapsing:
  assumes "\<forall>(d, x) \<in> set cs. d < wait"
  shows "let w = run wait (schedule ((d0, a0) # cs)) (debounce t0);
             (t, args) = last (call_times t0 ((d0, a0) # cs))
         in now w = t \<and>
            (\<forall>d. func_log (elapse d w) = (if wait \<le> d then [(t + wait, args)] else []))"
proof -
  let ?v = "executedFunction wait a0 (debounce (t0 + d0))"
  let ?w = "run wait (schedule cs) ?v"
  let ?l = "last (call_times t0 ((d0, a0) # cs))"
  have ok: "pending_ok (debounce (t0 + d0) :: 'a world)"
    by (rule pending_ok_debounce)
  have a0: "armed wait a0 ?v" using ok by (rule armed_call)
  have "now ?v = now (debounce (t0 + d0) :: 'a world)"
    and "func_log ?v = func_log (debounce (t0 + d0) :: 'a world)"
    using ok by (simp_all add: call_keeps)
  then have n0: "now ?v = t0 + d0" and l0: "func_log ?v = []"
    by (simp_all add: debounce_def)
  from collapse_armed [OF a0 assms]
  have A: "armed wait (snd ?l) ?w" and N: "now ?w = fst ?l" and L: "func_log ?w = []"
    by (simp_all add: n0 l0 del: last.simps)
  have "func_log (elapse d ?w) = (if wait \<le> d then [(fst ?l + wait, snd ?l)] else [])" for d
    using A L N by (simp add: elapse_armed_late elapse_armed_early del: last.simps)
  with N show ?thesis
    by (simp add: elapse_fresh case_prod_unfold del: last.simps)
qed

text \<open>
  The example of the specification: \<open>wait = 100\<close>, calls with 1 at 0, with 2 at 30 and with
  3 at 60; one execution, with 3, at 160.
\<close>

theorem debounce_collapsing_witness:
  "now (run 100 (schedule [(0, 1::nat), (30, 2), (30, 3)]) (debounce 0)) = 60 \<and>
   func_log (elapse 99 (run 100 (schedule [(0, 1::nat), (30, 2), (30, 3)]) (debounce 0))) = [] \<and>
   func_log (elapse 100 (run 100 (schedule [(0, 1::nat), (30, 2), (30, 3)]) (debounce 0)))
     = [(160, 3)]"
  using debounce_collapsing [of "[(30, 2::nat), (30, 3)]" 100 0 1 0]
  by (simp add: Let_def)

text \<open>
  Claim C6 (pending-timer invariant). After any sequence of calls and passages of time, at
  most one execution is scheduled, and it is the one whose handle \<open>timeout\<close> holds; the
  \<open>clearTimeout\<close> of a new call leaves nothing pending, and after the call the only
  pending execution is the one the call scheduled.
\<close>

theorem debounce_pending_invariant:
  "let w = run wait evs (debounce t0) in
     length (timers w) \<le> 1 \<and>
     (timers w = [] \<or> (\<exists>tm. timers w = [tm] \<and> timeout w = Some (handle tm))) \<and>
     timers (clearTimeout (timeout w) w) = [] \<and>
     timers (executedFunction wait args w) =
       [\<lparr>handle = next_handle w, due = now w + wait, later_args = args\<rparr>]"
proof -
  have ok: "pending_ok (run wait evs (debounce t0))"
    by (simp add: pending_ok_run pending_ok_debounce)
  then show ?thesis
    by (auto simp: Let_def pending_ok_def executedFunction_pending [OF ok] clearTimeout_def
             split: option.splits)
qed

lemma spaced_armed:
  assumes "armed wait a w" "\<forall>(d, x) \<in> set cs. wait < d" "wait \<le> dfin"
  shows "func_log (elapse dfin (run wait (schedule cs) w)) =
           func_log w @ map (\<lambda>(t, x). (t + wait, x)) ((now w, a) # call_times (now w) cs)"
  using assms
proof (induction cs arbitrary: w a)
  case Nil
  then show ?case by (simp add: elapse_armed_late)
next
  case (Cons c cs)
  obtain d a' where c: "c = (d, a')" by (cases c)
  from Cons.prems c have d: "wait \<le> d" by simp
  let ?w1 = "elapse d w"
  let ?w' = "executedFunction wait a' ?w1"
  have e: "?w1 = w\<lparr>timers := [], now := now w + d, func_log := func_log w @ [(now w + wait, a)]\<rparr>"
    using Cons.prems(1) d by (rule elapse_armed_late)
  have ok: "pending_ok ?w1" by (simp add: e pending_ok_def)
  have 1: "armed wait a' ?w'" using ok by (rule armed_call)
  have 2: "now ?w' = now w + d" and 3: "func_log ?w' = func_log w @ [(now w + wait, a)]"
    using ok by (simp_all add: call_keeps e)
  have rest: "\<forall>(d, x) \<in> set cs. wait < d" using Cons.prems(2) by simp
  from Cons.IH [OF 1 rest Cons.prems(3)] show ?case
    by (simp add: c 2 3)
qed

text \<open>
  Claim C7 (debounce spacing). When each call comes more than \<open>wait\<close> after the one
  before it, every call gives one execution of \<open>func\<close> of its own, with that call's
  arguments, \<open>wait\<close> after that call, in the order of the calls.
\<close>

theorem debounce_spacing:
  assumes "\<forall>(d, x) \<in> set (tl cs). wait < d" "wait \<le> dfin"
  shows "func_log (elapse dfin (run wait (schedule cs) (debounce t0))) =
           map (\<lambda>(t, x). (t + wait, x)) (call_times t0 cs)"
proof (cases cs)
  case Nil
  then show ?thesis by (simp add: elapse_fresh) (simp add: debounce_def)
next
  case (Cons c cs')
  obtain d0 a0 where c: "c = (d0, a0)" by (cases c)
  let ?v = "executedFunction wait a0 (debounce (t0 + d0))"
  have ok: "pending_ok (debounce (t0 + d0) :: 'a world)"
    by (rule pending_ok_debounce)
  have a0: "armed wait a0 ?v" using ok by (rule armed_call)
  have "now ?v = now (debounce (t0 + d0) :: 'a world)"
    and "func_log ?v = func_log (debounce (t0 + d0) :: 'a world)"
    using ok by (simp_all add: call_keeps)
  then have n0: "now ?v = t0 + d0" and l0: "func_log ?v = []"
    by (simp_all add: debounce_def)
  have rest: "\<forall>(d, x) \<in> set cs'. wait < d" using assms(1) Cons by simp
  from spaced_armed [OF a0 rest assms(2)] show ?thesis
    by (simp add: Cons c n0 l0 elapse_fresh)
qed

text \<open>Calls at 0, 130 and 231 with \<open>wait = 100\<close>: executions at 100, 230 and 331.\<close>

theorem debounce_spacing_witness:
  "func_log (elapse 100 (run 100 (schedule [(0, 1::nat), (130, 2), (101, 3)]) (debounce 0)))
     = [(100, 1), (230, 2), (331, 3)]"
  using debounce_spacing [of "[(0, 1::nat), (130, 2), (101, 3)]" 100 100 0]
  by simp

section \<open>Properties of the scroll animation tracker\<close>

subsection \<open>Finding the first entry\<close>

lemma findIndex_Some:
  "findIndex P xs = Some i \<Longrightarrow> i < length xs \<and> P (xs ! i) \<and> (\<forall>j<i. \<not> P (xs ! j))"
proof (induction xs arbitrary: i)
  case Nil
  then show ?case by simp
next
  case (Cons x xs)
  show ?case
  proof (cases "P x")
    case True
    with Cons.prems show ?thesis by simp
  next
    case False
    with Cons.prems obtain k where k: "findIndex P xs = Some k" "i = Suc k"
      by auto
    from Cons.IH [OF k(1)] False show ?thesis
      by (auto simp: k(2) nth_Cons split: nat.splits)
  qed
qed

lemma findIndex_None: "findIndex P xs = None \<longleftrightarrow> (\<forall>x\<in>set xs. \<not> P x)"
  by (induction xs) auto

lemma findIndex_map_cong:
  "map f xs = map f ys \<Longrightarrow> findIndex (\<lambda>x. Q (f x)) xs = findIndex (\<lambda>x. Q (f x)) ys"
proof (induction xs arbitrary: ys)
  case Nil
  then show ?case by simp
next
  case (Cons x xs)
  then obtain y ys' where "ys = y # ys'" "f x = f y" "map f xs = map f ys'"
    by (cases ys) auto
  with Cons.IH [of ys'] show ?case by simp
qed

lemma findIndex_append:
  "findIndex P (xs @ ys) =
     (case findIndex P xs of
        Some i \<Rightarrow> Some i
      | None \<Rightarrow> map_option (\<lambda>i. i + length xs) (findIndex P ys))"
  by (induction xs) (auto split: option.splits simp: option.map_comp comp_def option.map_ident)

lemma map_update_same: "f y = f (xs ! i) \<Longrightarrow> map f (xs[i := y]) = map f xs"
proof (induction xs arbitrary: i)
  case Nil
  then show ?case by simp
next
  case (Cons x xs)
  then show ?case by (cases i) auto
qed

lemma map_element_update:
  "map element (xs[i := (xs ! i)\<lparr>animated := True\<rparr>]) = map element xs"
  "map animationType (xs[i := (xs ! i)\<lparr>animated := True\<rparr>]) = map animationType xs"
  by (simp_all add: map_update_same)

lemma unrevealed_update:
  "i < length xs \<Longrightarrow> \<not> animated (xs ! i) \<Longrightarrow>
   Suc (length (filter (\<lambda>item. \<not> animated item) (xs[i := (xs ! i)\<lparr>animated := True\<rparr>])))
     = length (filter (\<lambda>item. \<not> animated item) xs)"
proof (induction xs arbitrary: i)
  case Nil
  then show ?case by simp
next
  case (Cons x xs)
  then show ?case by (cases i) auto
qed

lemma animateElement_None [simp]: "animateElement None s = Inr s"
  by (simp add: animateElement_def)

lemma animateElement_untracked:
  "findIndex (\<lambda>item. element item = e) (elements s) = None \<Longrightarrow> animateElement (Some e) s = Inr s"
  by (simp add: animateElement_def)

lemma animateElement_revealed: "revealed s e \<Longrightarrow> animateElement (Some e) s = Inr s"
  by (auto simp: animateElement_def revealed_def split: option.splits)

lemma animateElement_fresh:
  assumes "findIndex (\<lambda>item. element item = e) (elements s) = Some i"
    and "\<not> animated (elements s ! i)" and "observer s = Some T"
  shows "animateElement (Some e) s =
           Inr (s\<lparr>elements := (elements s)[i := (elements s ! i)\<lparr>animated := True\<rparr>],
                  animate_added := animate_added s @ [e],
                  observer := Some (T - {e})\<rparr>)"
  using assms by (simp add: animateElement_def Let_def)

lemma revealed_viewport_tests [simp]: "revealed (s\<lparr>viewport_tests := v\<rparr>) e = revealed s e"
  by (simp add: revealed_def split: option.splits)

lemma tracker_ok_viewport_tests [simp]: "tracker_ok (s\<lparr>viewport_tests := v\<rparr>) = tracker_ok s"
  by (simp add: tracker_ok_def first_only_def marks_ok_def)

lemma same_entries_refl [simp]: "same_entries s s"
  by (simp add: same_entries_def)

lemma same_entries_viewport_tests [simp]: "same_entries s (s\<lparr>viewport_tests := v\<rparr>)"
  by (simp add: same_entries_def)

lemma same_entries_trans: "same_entries s s1 \<Longrightarrow> same_entries s1 s2 \<Longrightarrow> same_entries s s2"
  by (simp add: same_entries_def)

lemma same_entries_findIndex:
  "same_entries s s' \<Longrightarrow>
   findIndex (\<lambda>item. element item = e) (elements s') = findIndex (\<lambda>item. element item = e) (elements s)"
  unfolding same_entries_def
  using findIndex_map_cong [of element "elements s'" "elements s" "\<lambda>x. x = e"] by simp

lemma same_entries_length: "same_entries s s' \<Longrightarrow> length (elements s') = length (elements s)"
  unfolding same_entries_def using map_eq_imp_length_eq by blast

lemma same_entries_element:
  "same_entries s s' \<Longrightarrow> i < length (elements s) \<Longrightarrow> element (elements s' ! i) = element (elements s ! i)"
  unfolding same_entries_def
  by (metis length_map nth_map)

text \<open>What a reveal that takes effect does to the notions above.\<close>

lemma fresh_reveal:
  fixes s :: "'e tracker" and T :: "'e set"
  assumes fi: "findIndex (\<lambda>item. element item = e) (elements s) = Some i"
    and na: "\<not> animated (elements s ! i)"
  defines "s' \<equiv> s\<lparr>elements := (elements s)[i := (elements s ! i)\<lparr>animated := True\<rparr>],
                  animate_added := animate_added s @ [e], observer := Some T\<rparr>"
  shows "same_entries s s'"
    and "revealed s' x \<longleftrightarrow> revealed s x \<or> x = e"
    and "tracker_ok s \<Longrightarrow> tracker_ok s'"
proof -
  let ?xs = "elements s"
  let ?xs' = "?xs[i := (?xs ! i)\<lparr>animated := True\<rparr>]"
  from findIndex_Some [OF fi] have i: "i < length ?xs" and ei: "element (?xs ! i) = e"
    by simp_all
  show se: "same_entries s s'"
    by (simp add: same_entries_def s'_def map_element_update)
  have fi': "findIndex (\<lambda>item. element item = y) (elements s') = findIndex (\<lambda>item. element item = y) ?xs" for y
    using se by (rule same_entries_findIndex)
  have nr: "\<not> revealed s e"
    using fi na by (simp add: revealed_def)
  show rv: "revealed s' x \<longleftrightarrow> revealed s x \<or> x = e" for x
  proof (cases "findIndex (\<lambda>item. element item = x) ?xs")
    case None
    then have "x \<noteq> e" using fi by auto
    with None show ?thesis by (simp add: revealed_def fi')
  next
    case (Some k)
    from findIndex_Some [OF Some] have k: "k < length ?xs" "element (?xs ! k) = x"
      by simp_all
    show ?thesis
    proof (cases "k = i")
      case True
      with k ei have "x = e" by simp
      with Some True i fi show ?thesis
        by (simp add: revealed_def fi') (simp add: s'_def)
    next
      case False
      then have "x \<noteq> e" using Some fi by auto
      with Some False show ?thesis
        by (simp add: revealed_def fi') (simp add: s'_def)
    qed
  qed
  assume ok: "tracker_ok s"
  have "first_only s'"
    unfolding first_only_def
  proof (intro allI impI)
    fix j assume j: "j < length (elements s')" and a: "animated (elements s' ! j)"
    have j': "j < length ?xs" using j by (simp add: s'_def)
    have el: "element (elements s' ! j) = element (?xs ! j)"
      using se j' by (rule same_entries_element)
    show "findIndex (\<lambda>item. element item = element (elements s' ! j)) (elements s') = Some j"
    proof (cases "j = i")
      case True
      then show ?thesis using fi ei el by (simp add: fi')
    next
      case False
      then have "animated (?xs ! j)" using a by (simp add: s'_def)
      then show ?thesis using ok j' by (simp add: fi' el tracker_ok_def first_only_def)
    qed
  qed
  moreover have "marks_ok s'"
    unfolding marks_ok_def
  proof
    fix y
    have "count_list (animate_added s') y = count_list (animate_added s) y + (if y = e then 1 else 0)"
      by (simp add: s'_def)
    also have "count_list (animate_added s) y = (if revealed s y then 1 else 0)"
      using ok by (simp add: tracker_ok_def marks_ok_def)
    finally show "count_list (animate_added s') y = (if revealed s' y then 1 else 0)"
      using nr by (auto simp: rv)
  qed
  ultimately show "tracker_ok s'"
    by (simp add: tracker_ok_def s'_def)
qed

text \<open>The two ways the reveal procedure can go.\<close>

lemma animateElement_cases [consumes 1, case_names noop fresh]:
  assumes T: "observer s = Some T"
  obtains (noop) "animateElement el s = Inr s"
      and "\<And>x. el = Some x \<Longrightarrow> x \<in> set (rescanned s) \<Longrightarrow> revealed s x"
  | (fresh) e i where "el = Some e"
      and "findIndex (\<lambda>item. element item = e) (elements s) = Some i"
      and "\<not> animated (elements s ! i)"
      and "animateElement el s =
             Inr (s\<lparr>elements := (elements s)[i := (elements s ! i)\<lparr>animated := True\<rparr>],
                    animate_added := animate_added s @ [e], observer := Some (T - {e})\<rparr>)"
proof (cases el)
  case None
  then show ?thesis by (intro noop) simp_all
next
  case (Some e)
  show ?thesis
  proof (cases "findIndex (\<lambda>item. element item = e) (elements s)")
    case None
    then have "e \<notin> set (rescanned s)"
      by (auto simp: findIndex_None rescanned_def)
    with None Some show ?thesis
      by (intro noop) (simp_all add: animateElement_untracked)
  next
    case fi: (Some i)
    show ?thesis
    proof (cases "animated (elements s ! i)")
      case True
      then have "revealed s e" using fi by (simp add: revealed_def)
      with Some show ?thesis
        by (intro noop) (simp_all add: animateElement_revealed)
    next
      case False
      with Some fi T show ?thesis
        by (intro fresh [of e i]) (simp_all add: animateElement_fresh)
    qed
  qed
qed

lemma animateElement_step:
  assumes ok: "tracker_ok s"
  shows "\<exists>s'. animateElement el s = Inr s' \<and> tracker_ok s' \<and> same_entries s s' \<and>
           viewport_tests s' = viewport_tests s \<and>
           (\<forall>x. revealed s' x \<longleftrightarrow> revealed s x \<or> (el = Some x \<and> x \<in> set (rescanned s)))"
proof -
  from ok obtain T where T: "observer s = Some T"
    by (auto simp: tracker_ok_def)
  from T show ?thesis
  proof (cases rule: animateElement_cases [where el = el])
    case noop
    with ok show ?thesis by auto
  next
    case (fresh e i)
    from findIndex_Some [OF fresh(2)] have "e \<in> set (rescanned s)"
      by (auto simp: rescanned_def)
    with fresh(1,4) fresh_reveal [OF fresh(2,3), of "T - {e}"] ok show ?thesis
      by auto
  qed
qed

lemma check_item_step:
  assumes ok: "tracker_ok s"
  shows "\<exists>s'. check_item g i s = Inr s' \<and> tracker_ok s' \<and> same_entries s s' \<and>
           viewport_tests s' = viewport_tests s @
             (if i < length (elements s) \<and> \<not> animated (elements s ! i)
              then [element (elements s ! i)] else []) \<and>
           (\<forall>x. revealed s' x \<longleftrightarrow>
                 revealed s x \<or>
                 (i < length (elements s) \<and> x = element (elements s ! i) \<and> isInViewport g x (1 / 10)))"
proof (cases "i < length (elements s)")
  case False
  then show ?thesis using ok by (simp add: check_item_def)
next
  case lt: True
  let ?e = "element (elements s ! i)"
  show ?thesis
  proof (cases "animated (elements s ! i)")
    case True
    with ok lt have "findIndex (\<lambda>item. element item = ?e) (elements s) = Some i"
      by (simp add: tracker_ok_def first_only_def)
    with True have "revealed s ?e" by (simp add: revealed_def)
    with True lt ok show ?thesis by (auto simp: check_item_def)
  next
    case na: False
    let ?s1 = "s\<lparr>viewport_tests := viewport_tests s @ [?e]\<rparr>"
    show ?thesis
    proof (cases "isInViewport g ?e (1 / 10)")
      case False
      with na lt ok show ?thesis by (auto simp: check_item_def Let_def)
    next
      case True
      have ok1: "tracker_ok ?s1" using ok by simp
      have mem: "?e \<in> set (rescanned ?s1)" using lt by (simp add: rescanned_def)
      from animateElement_step [OF ok1, of "Some ?e"] obtain s' where
        s': "animateElement (Some ?e) ?s1 = Inr s'" "tracker_ok s'" "same_entries ?s1 s'"
          "viewport_tests s' = viewport_tests ?s1"
          "\<And>x. revealed s' x \<longleftrightarrow> revealed ?s1 x \<or> (Some ?e = Some x \<and> x \<in> set (rescanned ?s1))"
        by blast
      have "check_item g i s = Inr s'"
        using lt na True s'(1) by (simp add: check_item_def Let_def)
      moreover have "same_entries s s'"
        using s'(3) by (simp add: same_entries_def)
      moreover have "revealed s' x \<longleftrightarrow> revealed s x \<or> (x = ?e \<and> isInViewport g x (1 / 10))" for x
        using s'(5) [of x] mem True by auto
      ultimately show ?thesis
        using s'(2) s'(4) lt na by auto
    qed
  qed
qed


lemma addElement_None [simp]: "addElement None ty s = Inr s"
  by (simp add: addElement_def)

lemma addElement_Some:
  "observer s = Some T \<Longrightarrow>
   addElement (Some e) ty s =
     Inr (s\<lparr>elements := elements s @ [\<lparr>element = e, animationType = ty, animated = False\<rparr>],
            observer := Some (insert e T)\<rparr>)"
  by (simp add: addElement_def)

lemma pushed:
  fixes s :: "'e tracker" and T :: "'e set" and e :: 'e and ty :: string
  defines "s' \<equiv> s\<lparr>elements := elements s @ [\<lparr>element = e, animationType = ty, animated = False\<rparr>],
                  observer := Some T\<rparr>"
  shows "revealed s' x \<longleftrightarrow> revealed s x"
    and "tracker_ok s \<Longrightarrow> tracker_ok s'"
proof -
  let ?xs = "elements s"
  let ?new = "\<lparr>element = e, animationType = ty, animated = False\<rparr>"
  have fi: "findIndex (\<lambda>item. element item = y) (elements s') =
              (case findIndex (\<lambda>item. element item = y) ?xs of
                 Some i \<Rightarrow> Some i
               | None \<Rightarrow> if e = y then Some (length ?xs) else None)" for y
    by (auto simp: s'_def findIndex_append split: option.splits)
  show rv: "revealed s' x \<longleftrightarrow> revealed s x" for x
  proof (cases "findIndex (\<lambda>item. element item = x) ?xs")
    case None
    then show ?thesis by (simp add: revealed_def fi) (simp add: s'_def)
  next
    case (Some i)
    from findIndex_Some [OF Some] have "i < length ?xs" by simp
    with Some show ?thesis by (simp add: revealed_def fi) (simp add: s'_def nth_append)
  qed
  assume ok: "tracker_ok s"
  have "first_only s'"
    unfolding first_only_def
  proof (intro allI impI)
    fix j assume j: "j < length (elements s')" and a: "animated (elements s' ! j)"
    have j': "j < length ?xs"
    proof (rule ccontr)
      assume "\<not> j < length ?xs"
      with j have "j = length ?xs" by (simp add: s'_def)
      with a show False by (simp add: s'_def)
    qed
    then have same: "elements s' ! j = ?xs ! j" by (simp add: s'_def nth_append)
    with a ok j' have "findIndex (\<lambda>item. element item = element (?xs ! j)) ?xs = Some j"
      by (simp add: tracker_ok_def first_only_def)
    then show "findIndex (\<lambda>item. element item = element (elements s' ! j)) (elements s') = Some j"
      by (simp add: fi same)
  qed
  moreover have "marks_ok s'"
    using ok by (simp add: marks_ok_def tracker_ok_def rv) (simp add: s'_def)
  ultimately show "tracker_ok s'"
    by (simp add: tracker_ok_def s'_def)
qed

lemma addElement_step:
  assumes ok: "tracker_ok s"
  shows "\<exists>s'. addElement el ty s = Inr s' \<and> tracker_ok s' \<and> (\<forall>x. revealed s' x \<longleftrightarrow> revealed s x)"
proof (cases el)
  case None
  then show ?thesis using ok by simp
next
  case (Some e)
  from ok obtain T where T: "observer s = Some T"
    by (auto simp: tracker_ok_def)
  show ?thesis
    using pushed(1) [where s = s and e = e and ty = ty and T = "insert e T"]
      pushed(2) [OF ok, where e = e and ty = ty and T = "insert e T"]
    by (simp add: Some addElement_Some [OF T])
qed

lemma forEach_append:
  "forEach f (xs @ ys) s =
     (case forEach f xs s of Inl err \<Rightarrow> Inl err | Inr s1 \<Rightarrow> forEach f ys s1)"
  by (induction xs arbitrary: s) (auto split: sum.splits)

lemma poll_loop:
  assumes "tracker_ok s"
  shows "\<exists>s'. forEach (check_item g) ix s = Inr s' \<and> tracker_ok s' \<and> same_entries s s' \<and>
           (\<exists>ts. viewport_tests s' = viewport_tests s @ ts) \<and>
           (\<forall>x. revealed s' x \<longleftrightarrow>
                 revealed s x \<or>
                 (\<exists>i\<in>set ix. i < length (elements s) \<and> x = element (elements s ! i) \<and>
                    isInViewport g x (1 / 10)))"
  using assms
proof (induction ix arbitrary: s)
  case Nil
  then show ?case by simp
next
  case (Cons i ix)
  from check_item_step [OF Cons.prems, of g i] obtain s1 where
    s1: "check_item g i s = Inr s1" "tracker_ok s1" "same_entries s s1"
      "\<exists>ts. viewport_tests s1 = viewport_tests s @ ts"
      "\<And>x. revealed s1 x \<longleftrightarrow>
            revealed s x \<or>
            (i < length (elements s) \<and> x = element (elements s ! i) \<and> isInViewport g x (1 / 10))"
    by auto
  from Cons.IH [OF s1(2)] obtain s' where
    s': "forEach (check_item g) ix s1 = Inr s'" "tracker_ok s'" "same_entries s1 s'"
      "\<exists>ts. viewport_tests s' = viewport_tests s1 @ ts"
      "\<And>x. revealed s' x \<longleftrightarrow>
            revealed s1 x \<or>
            (\<exists>k\<in>set ix. k < length (elements s1) \<and> x = element (elements s1 ! k) \<and>
               isInViewport g x (1 / 10))"
    by auto
  have len: "length (elements s1) = length (elements s)"
    using s1(3) by (rule same_entries_length)
  have el: "k < length (elements s) \<Longrightarrow> element (elements s1 ! k) = element (elements s ! k)" for k
    using s1(3) by (rule same_entries_element)
  have "forEach (check_item g) (i # ix) s = Inr s'"
    using s1(1) s'(1) by simp
  moreover have "same_entries s s'"
    using s1(3) s'(3) by (rule same_entries_trans)
  moreover have "\<exists>ts. viewport_tests s' = viewport_tests s @ ts"
    using s1(4) s'(4) by auto
  moreover have "revealed s' x \<longleftrightarrow>
      revealed s x \<or>
      (\<exists>k\<in>set (i # ix). k < length (elements s) \<and> x = element (elements s ! k) \<and>
         isInViewport g x (1 / 10))" for x
    unfolding s'(5) s1(5) len using el by auto
  ultimately show ?case using s'(2) by blast
qed

lemma rescanned_nth:
  "x \<in> set (rescanned s) \<longleftrightarrow> (\<exists>i<length (elements s). x = element (elements s ! i))"
proof -
  have "x \<in> set (rescanned s) \<longleftrightarrow> (\<exists>i<length (rescanned s). rescanned s ! i = x)"
    by (rule in_set_conv_nth)
  also have "\<dots> \<longleftrightarrow> (\<exists>i<length (elements s). x = element (elements s ! i))"
    by (auto simp: rescanned_def)
  finally show ?thesis .
qed

lemma checkElementsInView_step:
  assumes "tracker_ok s"
  shows "\<exists>s'. checkElementsInView g s = Inr s' \<and> tracker_ok s' \<and> same_entries s s' \<and>
           (\<exists>ts. viewport_tests s' = viewport_tests s @ ts) \<and>
           (\<forall>x. revealed s' x \<longleftrightarrow>
                 revealed s x \<or> (x \<in> set (rescanned s) \<and> isInViewport g x (1 / 10)))"
proof -
  have mem: "(\<exists>i\<in>{0..<length (elements s)}. x = element (elements s ! i))
      \<longleftrightarrow> x \<in> set (rescanned s)" for x
    using rescanned_nth [of x s] by auto
  from poll_loop [OF assms, of g "[0..<length (elements s)]"] show ?thesis
    by (simp add: checkElementsInView_def mem)
qed

text \<open>A loop whose steps keep the tracker well formed and every revealed element revealed.\<close>

lemma forEach_keeps:
  assumes "tracker_ok s"
    and step: "\<And>x s. tracker_ok s \<Longrightarrow>
             \<exists>s'. f x s = Inr s' \<and> tracker_ok s' \<and> (\<forall>e. revealed s e \<longrightarrow> revealed s' e)"
  shows "\<exists>s'. forEach f xs s = Inr s' \<and> tracker_ok s' \<and> (\<forall>e. revealed s e \<longrightarrow> revealed s' e)"
  using assms(1)
proof (induction xs arbitrary: s)
  case Nil
  then show ?case by simp
next
  case (Cons x xs)
  from step [OF Cons.prems, of x] obtain s1 where
    s1: "f x s = Inr s1" "tracker_ok s1" "\<forall>e. revealed s e \<longrightarrow> revealed s1 e"
    by blast
  from Cons.IH [OF s1(2)] obtain s' where
    "forEach f xs s1 = Inr s'" "tracker_ok s'" "\<forall>e. revealed s1 e \<longrightarrow> revealed s' e"
    by blast
  with s1 show ?case by auto
qed

lemma observer_entry_step:
  "tracker_ok s \<Longrightarrow>
   \<exists>s'. observer_entry en s = Inr s' \<and> tracker_ok s' \<and> (\<forall>e. revealed s e \<longrightarrow> revealed s' e)"
  using animateElement_step [of s "Some (target en)"] by (auto simp: observer_entry_def)

lemma exec_step:
  assumes "tracker_ok s"
  shows "\<exists>s'. exec opn s = Inr s' \<and> tracker_ok s' \<and> (\<forall>e. revealed s e \<longrightarrow> revealed s' e)"
proof (cases opn)
  case (AddElement el ty)
  with addElement_step [OF assms, of el ty] show ?thesis by auto
next
  case (Intersections ens)
  with forEach_keeps [OF assms observer_entry_step, where xs = ens] show ?thesis
    by (simp add: observer_callback_def)
next
  case (ScrollPoll g)
  with checkElementsInView_step [OF assms, of g] show ?thesis by auto
next
  case (AnimateElement el)
  with animateElement_step [OF assms, of el] show ?thesis by auto
qed

lemma run_ops_step:
  assumes "tracker_ok s"
  shows "\<exists>s'. run_ops ops s = Inr s' \<and> tracker_ok s' \<and> (\<forall>e. revealed s e \<longrightarrow> revealed s' e)"
  unfolding run_ops_def using assms exec_step by (rule forEach_keeps)

lemma tracker_ok_ScrollAnimations: "tracker_ok ScrollAnimations"
  by (simp add: tracker_ok_def first_only_def marks_ok_def revealed_def ScrollAnimations_def
      init_def setupIntersectionObserver_def)

lemma reachable_ok: "run_ops ops ScrollAnimations = Inr s \<Longrightarrow> tracker_ok s"
  using run_ops_step [OF tracker_ok_ScrollAnimations, of ops] by auto

subsection \<open>What a rescan tests\<close>

lemma upt_split: "j < n \<Longrightarrow> [0..<n] = [0..<j] @ j # [Suc j..<n]"
proof -
  assume j: "j < n"
  then have "[0..<n] = [0..<j] @ [j..<n]"
    using upt_add_eq_append [of 0 j "n - j"] by simp
  also have "[j..<n] = j # [Suc j..<n]"
    using j by (rule upt_conv_Cons)
  finally show ?thesis .
qed

lemma tested_at:
  assumes ok: "tracker_ok s"
    and run: "forEach (check_item g) (pre @ j # post) s = Inr s'"
    and pre: "\<And>s1. forEach (check_item g) pre s = Inr s1 \<Longrightarrow> \<not> animated (elements s1 ! j)"
    and j: "j < length (elements s)"
  shows "element (elements s ! j) \<in> set (tests_since s s')"
proof -
  from poll_loop [OF ok, of g pre] obtain s1 ts0 where
    s1: "forEach (check_item g) pre s = Inr s1" "tracker_ok s1" "same_entries s s1"
      "viewport_tests s1 = viewport_tests s @ ts0"
    by blast
  have j1: "j < length (elements s1)"
    using s1(3) j by (simp add: same_entries_length)
  have na: "\<not> animated (elements s1 ! j)"
    using s1(1) by (rule pre)
  have el: "element (elements s1 ! j) = element (elements s ! j)"
    using s1(3) j by (rule same_entries_element)
  from check_item_step [OF s1(2), of g j] j1 na obtain s2 where
    s2: "check_item g j s1 = Inr s2" "tracker_ok s2"
      "viewport_tests s2 = viewport_tests s1 @ [element (elements s1 ! j)]"
    by auto
  from poll_loop [OF s2(2), of g post] obtain s3 ts2 where
    s3: "forEach (check_item g) post s2 = Inr s3" "viewport_tests s3 = viewport_tests s2 @ ts2"
    by blast
  have "forEach (check_item g) (pre @ j # post) s = Inr s3"
    using s1(1) s2(1) s3(1) by (simp add: forEach_append)
  with run have "s' = s3" by simp
  then show ?thesis
    by (simp add: tests_since_def s3(2) s2(3) s1(4) el)
qed

lemma first_unrevealed_tested:
  assumes ok: "tracker_ok s"
    and run: "checkElementsInView g s = Inr s'"
    and x: "x \<in> set (rescanned s)" and nr: "\<not> revealed s x"
  shows "x \<in> set (tests_since s s')"
proof -
  let ?P = "\<lambda>item. element item = x"
  from x obtain j where fi: "findIndex ?P (elements s) = Some j"
    by (cases "findIndex ?P (elements s)") (auto simp: findIndex_None rescanned_def)
  from findIndex_Some [OF fi] have j: "j < length (elements s)"
    and xj: "element (elements s ! j) = x" and first: "\<forall>k<j. element (elements s ! k) \<noteq> x"
    by simp_all
  have split: "[0..<length (elements s)] = [0..<j] @ j # [Suc j..<length (elements s)]"
    using j by (rule upt_split)
  have pre: "\<not> animated (elements s1 ! j)" if "forEach (check_item g) [0..<j] s = Inr s1" for s1
  proof -
    from poll_loop [OF ok, of g "[0..<j]"] that have
      se: "same_entries s s1" and
      rv: "revealed s1 x \<longleftrightarrow>
             revealed s x \<or>
             (\<exists>i\<in>set [0..<j]. i < length (elements s) \<and> x = element (elements s ! i) \<and>
                isInViewport g x (1 / 10))"
      by auto
    from rv nr first have "\<not> revealed s1 x" by auto
    moreover have "findIndex ?P (elements s1) = Some j"
      using se fi by (simp add: same_entries_findIndex)
    ultimately show ?thesis by (simp add: revealed_def)
  qed
  from tested_at [OF ok _ pre j, where post = "[Suc j..<length (elements s)]" and s' = s'] run split xj
  show ?thesis by (simp add: checkElementsInView_def)
qed



subsection \<open>The claims about the tracker\<close>

text \<open>The definitions a concrete run unfolds.\<close>

lemmas tracker_defs =
  run_ops_def ScrollAnimations_def init_def setupIntersectionObserver_def addElement_def
  animateElement_def checkElementsInView_def check_item_def observer_callback_def
  observer_entry_def isInViewport_def windowHeight_def windowWidth_def revealed_def
  rescanned_def unrevealed_def tests_since_def

lemmas layout_defs =
  spec_tenth_visible_def intersectionRatio_def box_area_def visible_area_def touches_viewport_def
  below_viewport_def

lemma run_one_added: "run_ops [AddElement (Some 1) ''fadeInScale''] ScrollAnimations = Inr one_added"
  by (simp add: tracker_defs one_added_def)

lemma run_one_revealed:
  "run_ops [AddElement (Some 1) ''fadeInScale'', AnimateElement (Some 1)] ScrollAnimations
     = Inr one_revealed"
  by (simp add: tracker_defs one_revealed_def)


text \<open>
  Claim C2 (reveal monotonicity and idempotence). Once an element is revealed, the reveal
  procedure called on it, directly or from the observer callback, returns the state as it
  is; the marker has been added to it once; and whatever operations follow (reveals,
  observer callbacks, polls, registrations), the element stays revealed, the reveal
  procedure stays without effect on it, and the marker still has been added once.
\<close>

theorem reveal_idempotent:
  assumes "run_ops ops ScrollAnimations = Inr s" and "revealed s e"
  shows "animateElement (Some e) s = Inr s \<and>
         observer_callback [\<lparr>target = e, isIntersecting = True\<rparr>] s = Inr s \<and>
         count_list (animate_added s) e = 1 \<and>
         (\<exists>s'. run_ops later_ops s = Inr s' \<and> revealed s' e \<and>
               animateElement (Some e) s' = Inr s' \<and>
               count_list (animate_added s') e = 1)"
proof -
  have ok: "tracker_ok s" using assms(1) by (rule reachable_ok)
  have 1: "animateElement (Some e) s = Inr s"
    using assms(2) by (rule animateElement_revealed)
  then have 2: "observer_callback [\<lparr>target = e, isIntersecting = True\<rparr>] s = Inr s"
    by (simp add: observer_callback_def observer_entry_def)
  have 3: "count_list (animate_added s) e = 1"
    using ok assms(2) by (simp add: tracker_ok_def marks_ok_def)
  from run_ops_step [OF ok, of later_ops] assms(2) obtain s' where
    s': "run_ops later_ops s = Inr s'" "tracker_ok s'" "revealed s' e"
    by blast
  have "count_list (animate_added s') e = 1"
    using s'(2,3) by (simp add: tracker_ok_def marks_ok_def)
  with s' animateElement_revealed [OF s'(3)] 1 2 3 show ?thesis by blast
qed

text \<open>The revealed element 1.\<close>

theorem reveal_idempotent_witness:
  "revealed one_revealed 1 \<and> animateElement (Some 1) one_revealed = Inr one_revealed \<and>
   count_list (animate_added one_revealed) 1 = 1"
proof -
  have r: "revealed one_revealed 1"
    by (simp add: revealed_def one_revealed_def)
  from reveal_idempotent [OF run_one_revealed r, of "[]"] r show ?thesis
    by simp
qed

text \<open>
  Claim C3 as stated fails: after element 1 was added and revealed, the collection that
  \<open>checkElementsInView\<close> goes through still holds it, and is as long as before the reveal.
\<close>

theorem unregistration_counterexample:
  "run_ops [AddElement (Some 1) ''fadeInScale'', AnimateElement (Some 1)] ScrollAnimations
     = Inr one_revealed \<and>
   rescanned one_revealed = [1] \<and> length (elements one_revealed) = length (elements one_added)"
  using run_one_revealed by (simp add: rescanned_def one_revealed_def one_added_def)

text \<open>
  Claim C3, amended (unregistration on reveal). When the reveal procedure runs on a tracked
  element that is not yet revealed, the collection the rescans go through keeps all its
  elements, the revealed one too; the entry \<open>find\<close> gives for the element is now animated
  and the callback of a rescan does nothing at it; the number of entries that are not
  animated goes down by exactly one; and the element is taken out of the observer's
  targets.
\<close>

theorem reveal_keeps_entry:
  assumes "run_ops ops ScrollAnimations = Inr s" and "e \<in> set (rescanned s)" and "\<not> revealed s e"
  shows "\<exists>s' i T. animateElement (Some e) s = Inr s' \<and>
           rescanned s' = rescanned s \<and>
           Suc (length (unrevealed s')) = length (unrevealed s) \<and>
           observer s = Some T \<and> observer s' = Some (T - {e}) \<and>
           findIndex (\<lambda>item. element item = e) (elements s) = Some i \<and>
           animated (elements s' ! i) \<and>
           (\<forall>g. check_item g i s' = Inr s')"
proof -
  have ok: "tracker_ok s" using assms(1) by (rule reachable_ok)
  then obtain T where T: "observer s = Some T"
    by (auto simp: tracker_ok_def)
  from assms(2) obtain i where fi: "findIndex (\<lambda>item. element item = e) (elements s) = Some i"
    by (cases "findIndex (\<lambda>item. element item = e) (elements s)")
       (auto simp: findIndex_None rescanned_def)
  from findIndex_Some [OF fi] have i: "i < length (elements s)" by simp
  have na: "\<not> animated (elements s ! i)"
    using assms(3) fi by (simp add: revealed_def)
  let ?s' = "s\<lparr>elements := (elements s)[i := (elements s ! i)\<lparr>animated := True\<rparr>],
                animate_added := animate_added s @ [e], observer := Some (T - {e})\<rparr>"
  have a: "animateElement (Some e) s = Inr ?s'"
    using fi na T by (rule animateElement_fresh)
  have b: "rescanned ?s' = rescanned s"
    by (simp add: rescanned_def map_element_update)
  have c: "Suc (length (unrevealed ?s')) = length (unrevealed s)"
    using i na by (simp add: unrevealed_def unrevealed_update)
  have d: "animated (elements ?s' ! i)"
    using i by simp
  have e: "check_item g i ?s' = Inr ?s'" for g
    using i by (simp add: check_item_def)
  have f: "observer ?s' = Some (T - {e})"
    by simp
  show ?thesis
    by (rule exI [of _ ?s'], rule exI [of _ i], rule exI [of _ T])
       (intro conjI allI a b c d e f T fi)
qed

text \<open>Revealing element 1 on the tracker that holds only it.\<close>

theorem reveal_keeps_entry_witness:
  "animateElement (Some 1) one_added = Inr one_revealed \<and>
   rescanned one_revealed = rescanned one_added \<and>
   length (unrevealed one_added) = 1 \<and> length (unrevealed one_revealed) = 0 \<and>
   check_item low_box 0 one_revealed = Inr one_revealed"
proof -
  have m: "1 \<in> set (rescanned one_added)" and r: "\<not> revealed one_added 1"
    by (simp_all add: rescanned_def revealed_def one_added_def)
  from reveal_keeps_entry [OF run_one_added m r] show ?thesis
    by (simp add: tracker_defs one_added_def one_revealed_def)
qed

text \<open>
  Claim C4 as stated fails: under \<open>low_box\<close> all of element 1 is visible in the viewport,
  and a poll tests it and does not reveal it.
\<close>

theorem poll_visibility_counterexample:
  "spec_tenth_visible low_box 1 \<and>
   run_ops [AddElement (Some 1) ''fadeInScale'', ScrollPoll low_box] ScrollAnimations
     = Inr (one_added\<lparr>viewport_tests := [1]\<rparr>) \<and>
   \<not> revealed (one_added\<lparr>viewport_tests := [1]\<rparr>) 1"
  by (simp add: tracker_defs layout_defs low_box_def one_added_def)

text \<open>
  Claim C4, amended (the visibility test of the poll path). A scroll-poll rescan runs
  \<open>isInViewport\<close> on every tracked element that is not yet revealed, and after it the
  revealed elements are those revealed before and the tracked elements that pass
  \<open>isInViewport\<close> with threshold 1/10: top at most 0.9 times the viewport height, bottom
  at least 0.1 times the viewport height, left at most its width, right at least 0.
\<close>

theorem poll_visibility_test:
  assumes "run_ops ops ScrollAnimations = Inr s"
  shows "\<exists>s'. checkElementsInView g s = Inr s' \<and>
           (\<forall>x. revealed s' x \<longleftrightarrow>
                  revealed s x \<or> (x \<in> set (rescanned s) \<and> isInViewport g x (1 / 10))) \<and>
           (\<forall>x. x \<in> set (rescanned s) \<and> \<not> revealed s x \<longrightarrow> x \<in> set (tests_since s s'))"
proof -
  have ok: "tracker_ok s" using assms by (rule reachable_ok)
  from checkElementsInView_step [OF ok, of g] obtain s' where
    s': "checkElementsInView g s = Inr s'"
      "\<forall>x. revealed s' x \<longleftrightarrow>
             revealed s x \<or> (x \<in> set (rescanned s) \<and> isInViewport g x (1 / 10))"
    by blast
  have "x \<in> set (tests_since s s')" if "x \<in> set (rescanned s)" "\<not> revealed s x" for x
    using ok s'(1) that by (rule first_unrevealed_tested)
  with s' show ?thesis by blast
qed

text \<open>Under \<open>tall_box\<close> element 1 passes the test, and the poll reveals it.\<close>

theorem poll_visibility_test_witness:
  "checkElementsInView tall_box one_added = Inr (one_revealed\<lparr>viewport_tests := [1]\<rparr>) \<and>
   isInViewport tall_box 1 (1 / 10) \<and>
   revealed (one_revealed\<lparr>viewport_tests := [1]\<rparr>) 1 \<and>
   tests_since one_added (one_revealed\<lparr>viewport_tests := [1]\<rparr>) = [1]"
  using poll_visibility_test [OF run_one_added, of tall_box]
  by (simp add: tracker_defs tall_box_def one_added_def one_revealed_def)

text \<open>
  Claim C5 as stated fails: under \<open>tall_box\<close> less than 10% of element 1 is visible in the
  viewport, and a poll reveals it.
\<close>

theorem no_premature_reveal_counterexample:
  "\<not> spec_tenth_visible tall_box 1 \<and>
   run_ops [AddElement (Some 1) ''fadeInScale'', ScrollPoll tall_box] ScrollAnimations
     = Inr (one_revealed\<lparr>viewport_tests := [1]\<rparr>) \<and>
   revealed (one_revealed\<lparr>viewport_tests := [1]\<rparr>) 1"
  by (simp add: tracker_defs layout_defs tall_box_def one_revealed_def)

lemma below_not_in_viewport: "below_viewport g e \<Longrightarrow> \<not> isInViewport g e (1 / 10)"
proof -
  assume b: "below_viewport g e"
  let ?top = "rect_top (getBoundingClientRect g e)"
  from b have h: "0 \<le> windowHeight g" and t: "windowHeight g * (11 / 10) < ?top"
    by (simp_all add: below_viewport_def)
  have "windowHeight g * (1 - 1 / 10) \<le> windowHeight g * (11 / 10)"
    using h by (intro mult_left_mono) simp_all
  with t have "\<not> ?top \<le> windowHeight g * (1 - 1 / 10)"
    by linarith
  then show ?thesis
    by (simp add: isInViewport_def Let_def)
qed

lemma polls_keep_unrevealed:
  assumes "tracker_ok s" and "\<not> revealed s e"
    and "\<forall>g\<in>set gs. \<not> isInViewport g e (1 / 10)"
  shows "\<exists>s'. run_ops (map ScrollPoll gs) s = Inr s' \<and> tracker_ok s' \<and> \<not> revealed s' e"
  using assms
proof (induction gs arbitrary: s)
  case Nil
  then show ?case by (simp add: run_ops_def)
next
  case (Cons g gs)
  from checkElementsInView_step [OF Cons.prems(1), of g] obtain s1 where
    s1: "checkElementsInView g s = Inr s1" "tracker_ok s1"
      "\<forall>x. revealed s1 x \<longleftrightarrow>
             revealed s x \<or> (x \<in> set (rescanned s) \<and> isInViewport g x (1 / 10))"
    by blast
  have ng: "\<not> isInViewport g e (1 / 10)" and rest: "\<forall>g\<in>set gs. \<not> isInViewport g e (1 / 10)"
    using Cons.prems(3) by simp_all
  have nr: "\<not> revealed s1 e"
    using s1(3) Cons.prems(2) ng by blast
  from Cons.IH [OF s1(2) nr rest] obtain s' where
    "run_ops (map ScrollPoll gs) s1 = Inr s'" "tracker_ok s'" "\<not> revealed s' e"
    by blast
  with s1(1) show ?case by (simp add: run_ops_def)
qed

text \<open>
  Claim C5, amended (no premature reveal). An element that is not revealed, and that at
  every poll of a series fails \<open>isInViewport\<close> with threshold 1/10 or lies wholly below
  1.1 times the height of the viewport, is not revealed after the series, however long it
  is.
\<close>

theorem no_premature_reveal:
  assumes "run_ops ops ScrollAnimations = Inr s" and "\<not> revealed s e"
    and "\<forall>g\<in>set gs. \<not> isInViewport g e (1 / 10) \<or> below_viewport g e"
  shows "\<exists>s'. run_ops (map ScrollPoll gs) s = Inr s' \<and> \<not> revealed s' e"
proof -
  have ok: "tracker_ok s" using assms(1) by (rule reachable_ok)
  have "\<forall>g\<in>set gs. \<not> isInViewport g e (1 / 10)"
  proof
    fix g assume "g \<in> set gs"
    with assms(3) have "\<not> isInViewport g e (1 / 10) \<or> below_viewport g e"
      by (rule bspec)
    then show "\<not> isInViewport g e (1 / 10)"
      using below_not_in_viewport [of g e] by blast
  qed
  from polls_keep_unrevealed [OF ok assms(2) this] show ?thesis by blast
qed

text \<open>Two polls with element 1 below 1.1 times the height of the viewport.\<close>

theorem no_premature_reveal_witness:
  "below_viewport far_below 1 \<and>
   run_ops (map ScrollPoll [far_below, far_below]) one_added
     = Inr (one_added\<lparr>viewport_tests := [1, 1]\<rparr>) \<and>
   \<not> revealed (one_added\<lparr>viewport_tests := [1, 1]\<rparr>) 1"
proof -
  have r: "\<not> revealed one_added 1"
    by (simp add: revealed_def one_added_def)
  have b: "\<forall>g\<in>set [far_below, far_below]. \<not> isInViewport g 1 (1 / 10) \<or> below_viewport g 1"
    by (simp add: below_viewport_def far_below_def windowHeight_def)
  from no_premature_reveal [OF run_one_added r b] show ?thesis
    by (simp add: tracker_defs layout_defs far_below_def one_added_def)
qed

text \<open>
  Claim C8 (frame condition of the tracked collection). In every state the operations can
  produce, \<open>addElement\<close> with an element appends one entry with \<open>animated = false\<close> and
  leaves the others as they are; \<open>animateElement\<close> leaves the collection as it is or sets
  the \<open>animated\<close> flag of one entry of its element, which was not animated, and nothing
  else; a scroll-poll rescan keeps the length of the collection and the element and the
  animation type of every entry.
\<close>

theorem tracked_collection_frame:
  assumes "run_ops ops ScrollAnimations = Inr s"
  shows "(\<exists>s'. addElement (Some e) ty s = Inr s' \<and>
            elements s' = elements s @ [\<lparr>element = e, animationType = ty, animated = False\<rparr>]) \<and>
         (\<exists>s'. animateElement el s = Inr s' \<and>
            (elements s' = elements s \<or>
             (\<exists>i<length (elements s).
                 el = Some (element (elements s ! i)) \<and> \<not> animated (elements s ! i) \<and>
                 elements s' = (elements s)[i := (elements s ! i)\<lparr>animated := True\<rparr>]))) \<and>
         (\<exists>s'. checkElementsInView g s = Inr s' \<and>
            length (elements s') = length (elements s) \<and>
            map element (elements s') = map element (elements s) \<and>
            map animationType (elements s') = map animationType (elements s))"
proof -
  have ok: "tracker_ok s" using assms by (rule reachable_ok)
  then obtain T where T: "observer s = Some T"
    by (auto simp: tracker_ok_def)
  show ?thesis
  proof (intro conjI, goal_cases)
    case 1
    show ?case by (simp add: addElement_Some [OF T])
  next
    case 2
    from T show ?case
    proof (cases rule: animateElement_cases [where el = el])
      case noop
      then show ?thesis by simp
    next
      case (fresh e i)
      with findIndex_Some [OF fresh(2)] show ?thesis by auto
    qed
  next
    case 3
    from checkElementsInView_step [OF ok, of g] obtain s' where
      "checkElementsInView g s = Inr s'" "same_entries s s'"
      by blast
    then show ?case
      by (auto simp: same_entries_length) (simp_all add: same_entries_def)
  qed
qed

text \<open>Revealing element 1 flips the flag of its entry, at index 0.\<close>

theorem tracked_collection_frame_witness:
  "elements one_revealed = (elements one_added)[0 := (elements one_added ! 0)\<lparr>animated := True\<rparr>] \<and>
   animateElement (Some 1) one_added = Inr one_revealed"
  using tracked_collection_frame [OF run_one_added, of 1 "''x''" "Some 1" low_box]
  by (simp add: tracker_defs one_added_def one_revealed_def)

text \<open>
  Claim C9 (degenerate inputs never raise). In any state whatever, \<open>addElement\<close> with a
  null element returns with the state as it was, and so does \<open>animateElement\<close> with null
  or with an element that was never registered. In every state the operations can produce
  from the constructor (and every sequence of operations does produce one), \<open>addElement\<close>
  and \<open>animateElement\<close> return normally for every argument, an element or null.
\<close>

theorem degenerate_inputs:
  "addElement None ty s0 = Inr s0 \<and>
   animateElement None s0 = Inr s0 \<and>
   (e \<notin> set (rescanned s0) \<longrightarrow> animateElement (Some e) s0 = Inr s0) \<and>
   (\<exists>s. run_ops ops ScrollAnimations = Inr s \<and>
        (\<exists>s'. addElement el ty s = Inr s') \<and> (\<exists>s'. animateElement el s = Inr s'))"
proof -
  have "e \<notin> set (rescanned s0) \<Longrightarrow> animateElement (Some e) s0 = Inr s0"
    by (rule animateElement_untracked) (auto simp: findIndex_None rescanned_def)
  moreover from run_ops_step [OF tracker_ok_ScrollAnimations, of ops] obtain s where
    s: "run_ops ops ScrollAnimations = Inr s" "tracker_ok s"
    by blast
  from addElement_step [OF s(2), of el ty] animateElement_step [OF s(2), of el] s(1)
  have "\<exists>s. run_ops ops ScrollAnimations = Inr s \<and>
        (\<exists>s'. addElement el ty s = Inr s') \<and> (\<exists>s'. animateElement el s = Inr s')"
    by blast
  ultimately show ?thesis by simp
qed

text \<open>Revealing the unregistered element 2 on a tracker that holds element 1.\<close>

theorem degenerate_inputs_witness:
  "animateElement (Some 2) one_added = Inr one_added \<and>
   addElement None ''fadeInScale'' one_added = Inr one_added"
  using degenerate_inputs [of "''fadeInScale''" one_added 2 "[]" None]
  by (auto simp: rescanned_def one_added_def)



end
